theory Spec2Isabelle
  imports Main
begin

section \<open>Data model of \<open>code.cpp\<close>\<close>

text \<open>
  \<open>struct Token { enum Type { NUMBER, OPERATOR, VARIABLE, PARENTHESIS } type; string value; }\<close>
  and \<open>struct Instruction { string op, arg1, arg2, result; }\<close>.
  A \<open>std::string\<close> is a list of bytes, which is what \<^typ>\<open>string\<close> is.
\<close>

datatype Type = NUMBER | OPERATOR | VARIABLE | PARENTHESIS

datatype Token = Token (tok_type: Type) (tok_value: string)

datatype Instruction =
  Instruction (op: string) (arg1: string) (arg2: string) (result: string)

text \<open>
  The source has no error type. Two of its steps have undefined behaviour in C++, and the
  model turns each into an error value instead of picking a result for it:
  \<^item> \<open>top()\<close>/\<open>pop()\<close> on an empty \<open>std::stack\<close> (lines 84 to 86);
  \<^item> \<open>tempCount++\<close> on an \<open>int\<close> that holds \<open>INT_MAX\<close> (line 87).
\<close>

datatype error = OperatorUnderflow | OperandUnderflow | TempCountOverflow

text \<open>
  The locals of \<open>processExpression\<close> that the lambda \<open>processOperator\<close> captures by
  reference (lines 69 to 72). Both stacks have their top at the head of the list.
\<close>

record rstate =
  instructions :: "Instruction list"
  operators :: "Token list"
  operands :: "string list"
  tempCount :: int

section \<open>Character classes and decimal numerals\<close>

text \<open>
  \<open>isspace\<close>, \<open>isdigit\<close>, \<open>isalpha\<close> and \<open>isalnum\<close> of \<open><cctype>\<close> in the "C" locale
  (the program never calls \<open>setlocale\<close>): bytes outside ASCII belong to no class.
\<close>

definition isspace :: "char \<Rightarrow> bool" where
  "isspace c = (c \<in> set [CHR '' '', CHR 0x09, CHR 0x0A, CHR 0x0B, CHR 0x0C, CHR 0x0D])"

definition isdigit :: "char \<Rightarrow> bool" where
  "isdigit c = (c \<in> set ''0123456789'')"

definition isalpha :: "char \<Rightarrow> bool" where
  "isalpha c = (c \<in> set ''abcdefghijklmnopqrstuvwxyzABCDEFGHIJKLMNOPQRSTUVWXYZ'')"

definition isalnum :: "char \<Rightarrow> bool" where
  "isalnum c = (isalpha c \<or> isdigit c)"

text \<open>
  \<open>strchr("+-*/%^()", c)\<close> as a truth value (line 63). The terminating NUL is part of
  the string that \<open>strchr\<close> searches, so the byte 0 is found as well.
\<close>

definition strchr_ops :: "char \<Rightarrow> bool" where
  "strchr_ops c = (c \<in> set ''+-*/%^()'' \<or> c = CHR 0x00)"

text \<open>\<open>std::to_string\<close> on an \<open>int\<close>: the decimal numeral, with a minus sign below zero.\<close>

definition digit_char :: "nat \<Rightarrow> char" where
  "digit_char d = ''0123456789'' ! d"

fun string_of_nat :: "nat \<Rightarrow> string" where
  "string_of_nat n =
     (if n < 10 then [digit_char n] else string_of_nat (n div 10) @ [digit_char (n mod 10)])"

declare string_of_nat.simps [simp del]

definition to_string :: "int \<Rightarrow> string" where
  "to_string i = (if i < 0 then CHR ''-'' # string_of_nat (nat (- i)) else string_of_nat (nat i))"

definition INT_MAX :: int where
  "INT_MAX = 2147483647"

section \<open>Step 1: tokenization (lines 41 to 66)\<close>

text \<open>
  The \<open>for\<close> loop over the index \<open>i\<close> reads the string from left to right; the two inner
  \<open>while\<close> loops consume a maximal run that starts at the current character and
  \<open>i--\<close> hands the character after the run back to the outer loop. On the list of the
  remaining characters that is \<open>takeWhile\<close>/\<open>dropWhile\<close>.
\<close>

definition number_char :: "char \<Rightarrow> bool" where
  "number_char c = (isdigit c \<or> c = CHR ''.'')"

definition variable_char :: "char \<Rightarrow> bool" where
  "variable_char c = (isalnum c \<or> c = CHR ''_'')"

function tokenize :: "string \<Rightarrow> Token list" where
  "tokenize [] = []"
| "tokenize (c # cs) =
     (if isspace c then tokenize cs
      else if isdigit c then
        Token NUMBER (c # takeWhile number_char cs) # tokenize (dropWhile number_char cs)
      else if isalpha c then
        Token VARIABLE (c # takeWhile variable_char cs) # tokenize (dropWhile variable_char cs)
      else if strchr_ops c then
        Token (if c = CHR ''('' \<or> c = CHR '')'' then PARENTHESIS else OPERATOR) [c] # tokenize cs
      else tokenize cs)"
  by pat_completeness auto
termination
  by (relation "measure length") (auto simp: less_Suc_eq_le length_dropWhile_le)

declare tokenize.simps [simp del]

section \<open>Step 2 and 3: the two-stack reduction (lines 69 to 120)\<close>

definition getPrecedence :: "string \<Rightarrow> int" where
  "getPrecedence v =
     (if v = ''+'' \<or> v = ''-'' then 1
      else if v = ''*'' \<or> v = ''/'' \<or> v = ''%'' then 2
      else if v = ''^'' then 3
      else 0)"

text \<open>
  The lambda \<open>processOperator\<close> (lines 83 to 90). Its three call sites test
  \<open>!operators.empty()\<close> first, so only the two operand pops and the increment can go
  wrong there.
\<close>

definition processOperator :: "rstate \<Rightarrow> error + rstate" where
  "processOperator s =
     (case operators s of
        [] \<Rightarrow> Inl OperatorUnderflow
      | t # ops \<Rightarrow>
          (case operands s of
             a2 # a1 # rest \<Rightarrow>
               if tempCount s = INT_MAX then Inl TempCountOverflow
               else
                 let tempVar = ''t'' @ to_string (tempCount s)
                 in Inr (s\<lparr>instructions := instructions s @ [Instruction (tok_value t) a1 a2 tempVar],
                           operators := ops,
                           operands := tempVar # rest,
                           tempCount := tempCount s + 1\<rparr>)
           | _ \<Rightarrow> Inl OperandUnderflow))"

text \<open>The condition of the \<open>while\<close> loop of lines 100 to 102, without the emptiness test.\<close>

definition reduceCondition :: "Token \<Rightarrow> Token \<Rightarrow> bool" where
  "reduceCondition topTok token =
     (let isRightAssoc = (tok_value token = ''^'')
      in tok_type topTok = OPERATOR \<and>
         ((\<not> isRightAssoc \<and> getPrecedence (tok_value topTok) \<ge> getPrecedence (tok_value token)) \<or>
          (isRightAssoc \<and> getPrecedence (tok_value topTok) > getPrecedence (tok_value token))))"

lemma processOperator_shorter:
  "processOperator s = Inr s' \<Longrightarrow> length (operators s') < length (operators s)"
  by (auto simp: processOperator_def Let_def split: list.splits if_splits)

text \<open>
  \<open>processOperator\<close> is called from three loops of one shape,
  \<open>while (!operators.empty() && cond(operators.top())) processOperator();\<close>,
  which differ in \<open>cond\<close> only. \<open>reduceWhile\<close> is that loop; an error of the body
  ends it.
\<close>

function reduceWhile :: "(Token \<Rightarrow> bool) \<Rightarrow> rstate \<Rightarrow> error + rstate" where
  "reduceWhile cond s =
     (case operators s of
        [] \<Rightarrow> Inr s
      | topTok # _ \<Rightarrow>
          if cond topTok then
            (case processOperator s of
               Inl e \<Rightarrow> Inl e
             | Inr s' \<Rightarrow> reduceWhile cond s')
          else Inr s)"
  by pat_completeness auto
termination
  by (relation "measure (\<lambda>(cond, s). length (operators s))")
     (auto dest: processOperator_shorter)

declare reduceWhile.simps [simp del]

text \<open>Lines 100 to 104: reduce while the top is an operator that binds at least as tightly.\<close>

definition reduceOperators :: "Token \<Rightarrow> rstate \<Rightarrow> error + rstate" where
  "reduceOperators token s = reduceWhile (\<lambda>topTok. reduceCondition topTok token) s"

text \<open>Lines 112 and 113: reduce while the top's value is not \<open>"("\<close>.\<close>

definition reduceToOpenParen :: "rstate \<Rightarrow> error + rstate" where
  "reduceToOpenParen s = reduceWhile (\<lambda>topTok. tok_value topTok \<noteq> ''('') s"

text \<open>Lines 119 and 120: reduce while the operator stack is not empty.\<close>

definition reduceRemaining :: "rstate \<Rightarrow> error + rstate" where
  "reduceRemaining s = reduceWhile (\<lambda>topTok. True) s"

text \<open>The body of the \<open>for\<close> loop over the tokens (lines 94 to 115).\<close>

definition processToken :: "Token \<Rightarrow> rstate \<Rightarrow> error + rstate" where
  "processToken token s =
     (if tok_type token = NUMBER \<or> tok_type token = VARIABLE then
        Inr (s\<lparr>operands := tok_value token # operands s\<rparr>)
      else if tok_type token = OPERATOR then
        (case reduceOperators token s of
           Inl e \<Rightarrow> Inl e
         | Inr s' \<Rightarrow> Inr (s'\<lparr>operators := token # operators s'\<rparr>))
      else if tok_value token = ''('' then
        Inr (s\<lparr>operators := token # operators s\<rparr>)
      else if tok_value token = '')'' then
        (case reduceToOpenParen s of
           Inl e \<Rightarrow> Inl e
         | Inr s' \<Rightarrow>
             Inr (if operators s' \<noteq> [] then s'\<lparr>operators := tl (operators s')\<rparr> else s'))
      else Inr s)"

fun processTokens :: "Token list \<Rightarrow> rstate \<Rightarrow> error + rstate" where
  "processTokens [] s = Inr s"
| "processTokens (token # tokens) s =
     (case processToken token s of
        Inl e \<Rightarrow> Inl e
      | Inr s' \<Rightarrow> processTokens tokens s')"

definition initial :: rstate where
  "initial = \<lparr>instructions = [], operators = [], operands = [], tempCount = 1\<rparr>"

text \<open>Steps 3 and 4 on a token sequence: the state when line 122 is reached.\<close>

definition reduceTokens :: "Token list \<Rightarrow> error + rstate" where
  "reduceTokens tokens =
     (case processTokens tokens initial of
        Inl e \<Rightarrow> Inl e
      | Inr s \<Rightarrow> reduceRemaining s)"

text \<open>The final assignment (lines 123 and 124) and the returned vector.\<close>

definition finish :: "string \<Rightarrow> rstate \<Rightarrow> Instruction list" where
  "finish resultVar s =
     (if operands s \<noteq> [] then
        instructions s @ [Instruction ''='' (hd (operands s)) '''' resultVar]
      else instructions s)"

definition processExpression :: "string \<Rightarrow> string \<Rightarrow> error + Instruction list" where
  "processExpression expression resultVar =
     (case reduceTokens (tokenize expression) of
        Inl e \<Rightarrow> Inl e
      | Inr s \<Rightarrow> Inr (finish resultVar s))"

section \<open>The derived views (lines 25 to 32 and 130 to 152)\<close>

definition toString :: "Instruction \<Rightarrow> string" where
  "toString i =
     (if op i = ''='' then result i @ '' = '' @ arg1 i
      else result i @ '' = '' @ arg1 i @ '' '' @ op i @ '' '' @ arg2 i)"

definition toQuadruple :: "Instruction \<Rightarrow> string" where
  "toQuadruple i =
     ''('' @ op i @ '', '' @ arg1 i @ '', '' @ (if op i = ''='' then '' '' else arg2 i) @
     '', '' @ result i @ '')''"

text \<open>
  \<open>printTriples\<close> and \<open>printIndirectTriples\<close> write to \<open>std::cout\<close>; the model threads
  the text written so far. \<open>tripleRows\<close> is the loop
  \<open>for (i = 0; i < instructions.size(); i++) cout << i << ": (" << ... << ")\n"\<close>,
  started at index \<open>i\<close> on the instructions from there on.
\<close>

fun tripleRows :: "nat \<Rightarrow> Instruction list \<Rightarrow> string \<Rightarrow> string" where
  "tripleRows i [] out = out"
| "tripleRows i (x # xs) out =
     tripleRows (Suc i) xs
       (out @ string_of_nat i @ '': ('' @ op x @ '', '' @ arg1 x @ '', '' @ arg2 x @ '')'' @ [CHR 0x0A])"

fun pointerRows :: "nat \<Rightarrow> Instruction list \<Rightarrow> string \<Rightarrow> string" where
  "pointerRows i [] out = out"
| "pointerRows i (x # xs) out =
     pointerRows (Suc i) xs (out @ string_of_nat i @ '' -> '' @ string_of_nat i @ [CHR 0x0A])"

definition printTriples :: "Instruction list \<Rightarrow> string \<Rightarrow> string" where
  "printTriples ins out = tripleRows 0 ins (out @ [CHR 0x0A] @ ''Triples:'' @ [CHR 0x0A])"

definition printIndirectTriples :: "Instruction list \<Rightarrow> string \<Rightarrow> string" where
  "printIndirectTriples ins out =
     (let out1 = out @ [CHR 0x0A] @ ''Indirect Triples:'' @ [CHR 0x0A];
          out2 = out1 @ ''Pointer Table:'' @ [CHR 0x0A];
          out3 = pointerRows 0 ins out2;
          out4 = out3 @ [CHR 0x0A] @ ''Instruction Table:'' @ [CHR 0x0A]
      in tripleRows 0 ins out4)"

text \<open>
  The part of \<open>main\<close> that prints the quadruples (lines 174 to 176), numbered from 1:
  \<open>cout << i + 1 << ": " << instructions[i].toQuadruple() << endl\<close>.
\<close>

fun quadrupleRows :: "nat \<Rightarrow> Instruction list \<Rightarrow> string \<Rightarrow> string" where
  "quadrupleRows i [] out = out"
| "quadrupleRows i (x # xs) out =
     quadrupleRows (Suc i) xs (out @ string_of_nat (i + 1) @ '': '' @ toQuadruple x @ [CHR 0x0A])"

definition printQuadruples :: "Instruction list \<Rightarrow> string \<Rightarrow> string" where
  "printQuadruples ins out = quadrupleRows 0 ins (out @ [CHR 0x0A] @ ''Quadruples:'' @ [CHR 0x0A])"

section \<open>Notions of the specification\<close>

text \<open>Reading a decimal numeral back: the inverse of \<open>string_of_nat\<close>.\<close>

definition digit_val :: "char \<Rightarrow> nat" where
  "digit_val c = of_char c - 48"

definition nat_of_string :: "string \<Rightarrow> nat" where
  "nat_of_string cs = foldl (\<lambda>a c. 10 * a + digit_val c) 0 cs"

text \<open>The name \<open>t<k>\<close> of the \<open>k\<close>-th temporary.\<close>

definition tempName :: "nat \<Rightarrow> string" where
  "tempName k = ''t'' @ to_string (int k)"

text \<open>
  Well-formed infix expressions over tokens: an operand (number or variable), two
  expressions joined by one of the six binary operators, or an expression in parentheses.
\<close>

definition is_operand :: "Token \<Rightarrow> bool" where
  "is_operand t = (tok_type t = NUMBER \<or> tok_type t = VARIABLE)"

definition binary_operator :: "Token \<Rightarrow> bool" where
  "binary_operator t =
     (tok_type t = OPERATOR \<and> tok_value t \<in> set [''+'', ''-'', ''*'', ''/'', ''%'', ''^''])"

definition openParen :: Token where
  "openParen = Token PARENTHESIS ''(''"

definition closeParen :: Token where
  "closeParen = Token PARENTHESIS '')''"

inductive infix_expr :: "Token list \<Rightarrow> bool" where
  operand: "is_operand t \<Longrightarrow> infix_expr [t]"
| binary: "infix_expr l \<Longrightarrow> binary_operator b \<Longrightarrow> infix_expr r \<Longrightarrow> infix_expr (l @ b # r)"
| parens: "infix_expr e \<Longrightarrow> infix_expr (openParen # e @ [closeParen])"

text \<open>Fully parenthesized expressions: every binary operation has its own parentheses.\<close>

inductive fully_parenthesized :: "Token list \<Rightarrow> bool" where
  operand: "is_operand t \<Longrightarrow> fully_parenthesized [t]"
| binary: "fully_parenthesized l \<Longrightarrow> binary_operator b \<Longrightarrow> fully_parenthesized r \<Longrightarrow>
     fully_parenthesized (openParen # l @ b # r @ [closeParen])"

definition count_operators :: "Token list \<Rightarrow> nat" where
  "count_operators tokens = length (filter binary_operator tokens)"

section \<open>Invariants of the reduction\<close>

text \<open>
  The temporaries are numbered by position: the counter is one more than the number of
  instructions emitted, and the \<open>k\<close>-th of them has the result \<open>t<k>\<close>.
\<close>

definition numbered :: "rstate \<Rightarrow> bool" where
  "numbered s =
     (tempCount s = 1 + int (length (instructions s)) \<and>
      map result (instructions s) = map tempName [1..<Suc (length (instructions s))])"

text \<open>
  The shape of the operator stack while a well-formed expression is read: operator tokens
  whose value is not \<open>(\<close>, and open parentheses. \<open>pending\<close> counts the operator
  tokens, \<open>barrier\<close> is the stack from its topmost parenthesis downwards.
\<close>

definition is_operator :: "Token \<Rightarrow> bool" where
  "is_operator t = (tok_type t = OPERATOR)"

definition stack_ok :: "Token list \<Rightarrow> bool" where
  "stack_ok stk = list_all (\<lambda>t. (is_operator t \<and> tok_value t \<noteq> ''('') \<or> t = openParen) stk"

definition pending :: "Token list \<Rightarrow> nat" where
  "pending stk = length (filter is_operator stk)"

definition barrier :: "Token list \<Rightarrow> Token list" where
  "barrier stk = dropWhile is_operator stk"

text \<open>
  \<open>wants_operand\<close> holds where an operand or an open parenthesis is due (at the start,
  after an operator, after an open parenthesis): one operand per pending operator.
  \<open>has_operand\<close> holds after an operand or a close parenthesis: one operand more.
\<close>

definition wants_operand :: "rstate \<Rightarrow> bool" where
  "wants_operand s =
     (stack_ok (operators s) \<and> length (operands s) = pending (operators s) \<and>
      tempCount s = 1 + int (length (instructions s)))"

definition has_operand :: "rstate \<Rightarrow> bool" where
  "has_operand s =
     (stack_ok (operators s) \<and> length (operands s) = Suc (pending (operators s)) \<and>
      tempCount s = 1 + int (length (instructions s)))"

text \<open>
  Every pending operator and every operator still to be read becomes one instruction, so
  this sum stays the same while an expression is read.
\<close>

definition budget :: "rstate \<Rightarrow> Token list \<Rightarrow> nat" where
  "budget s tokens = length (instructions s) + pending (operators s) + count_operators tokens"


section \<open>Decimal numerals and temporary names\<close>

lemma digit_val_digit_char: "d < 10 \<Longrightarrow> digit_val (digit_char d) = d"
proof -
  assume "d < 10"
  then have "d \<in> {0,1,2,3,4,5,6,7,8,9}" by auto
  then show ?thesis
    by (auto simp: digit_val_def digit_char_def)
qed

lemma nat_of_string_of_nat: "nat_of_string (string_of_nat n) = n"
proof (induction n rule: string_of_nat.induct)
  case (1 n)
  show ?case
  proof (cases "n < 10")
    case True
    then show ?thesis
      by (simp add: string_of_nat.simps [of n] nat_of_string_def digit_val_digit_char)
  next
    case False
    with 1 have "nat_of_string (string_of_nat (n div 10)) = n div 10" by simp
    with False show ?thesis
      by (simp add: string_of_nat.simps [of n] nat_of_string_def digit_val_digit_char)
  qed
qed

lemma string_of_nat_inj: "string_of_nat m = string_of_nat n \<Longrightarrow> m = n"
  by (metis nat_of_string_of_nat)

lemma tempName_inj: "tempName j = tempName k \<Longrightarrow> j = k"
  by (auto simp: tempName_def to_string_def dest: string_of_nat_inj)

section \<open>The reduction step and its loop\<close>

lemma processOperator_Inr:
  "processOperator s = Inr s' \<Longrightarrow>
     \<exists>t ops a2 a1 rest. operators s = t # ops \<and> operands s = a2 # a1 # rest \<and>
       tempCount s \<noteq> INT_MAX \<and>
       s' = s\<lparr>instructions := instructions s @
                  [Instruction (tok_value t) a1 a2 (''t'' @ to_string (tempCount s))],
               operators := ops,
               operands := (''t'' @ to_string (tempCount s)) # rest,
               tempCount := tempCount s + 1\<rparr>"
  by (auto simp: processOperator_def Let_def split: list.splits if_splits)

lemma reduceWhile_preserves:
  assumes step: "\<And>s s'. P s \<Longrightarrow> processOperator s = Inr s' \<Longrightarrow> P s'"
  shows "reduceWhile c s = Inr s' \<Longrightarrow> P s \<Longrightarrow> P s'"
proof (induction c s rule: reduceWhile.induct)
  case (1 c s)
  show ?case
  proof (cases "operators s")
    case Nil
    with "1.prems" show ?thesis by (simp add: reduceWhile.simps [of c s])
  next
    case (Cons t ops)
    show ?thesis
    proof (cases "c t")
      case False
      with Cons "1.prems" show ?thesis by (simp add: reduceWhile.simps [of c s])
    next
      case True
      with Cons "1.prems" obtain s1 where s1: "processOperator s = Inr s1"
        and run: "reduceWhile c s1 = Inr s'"
        by (auto simp: reduceWhile.simps [of c s] split: sum.splits)
      from step [OF "1.prems"(2) s1] have "P s1" .
      from "1.IH" [OF Cons True s1 run this] show ?thesis .
    qed
  qed
qed

lemma reduceWhile_Inr:
  "reduceWhile c s = Inr s' \<Longrightarrow>
     operators s' = dropWhile c (operators s) \<and>
     length (instructions s') = length (instructions s) + length (takeWhile c (operators s)) \<and>
     length (operands s') + length (takeWhile c (operators s)) = length (operands s)"
proof (induction c s rule: reduceWhile.induct)
  case (1 c s)
  show ?case
  proof (cases "operators s")
    case Nil
    with "1.prems" show ?thesis by (simp add: reduceWhile.simps [of c s])
  next
    case (Cons t ops)
    show ?thesis
    proof (cases "c t")
      case False
      with Cons "1.prems" show ?thesis by (simp add: reduceWhile.simps [of c s])
    next
      case True
      with Cons "1.prems" obtain s1 where s1: "processOperator s = Inr s1"
        and run: "reduceWhile c s1 = Inr s'"
        by (auto simp: reduceWhile.simps [of c s] split: sum.splits)
      from "1.IH" [OF Cons True s1 run] processOperator_Inr [OF s1] Cons True
      show ?thesis by auto
    qed
  qed
qed

lemma reduceWhile_tempCount:
  "reduceWhile c s = Inr s' \<Longrightarrow>
     tempCount s' = tempCount s + int (length (takeWhile c (operators s)))"
proof (induction c s rule: reduceWhile.induct)
  case (1 c s)
  show ?case
  proof (cases "operators s")
    case Nil
    with "1.prems" show ?thesis by (simp add: reduceWhile.simps [of c s])
  next
    case (Cons t ops)
    show ?thesis
    proof (cases "c t")
      case False
      with Cons "1.prems" show ?thesis by (simp add: reduceWhile.simps [of c s])
    next
      case True
      with Cons "1.prems" obtain s1 where s1: "processOperator s = Inr s1"
        and run: "reduceWhile c s1 = Inr s'"
        by (auto simp: reduceWhile.simps [of c s] split: sum.splits)
      from "1.IH" [OF Cons True s1 run] processOperator_Inr [OF s1] Cons True
      show ?thesis by auto
    qed
  qed
qed

lemma reduceWhile_total:
  "length (takeWhile c (operators s)) < length (operands s) \<Longrightarrow>
     (\<exists>s'. reduceWhile c s = Inr s') \<or>
     (reduceWhile c s = Inl TempCountOverflow \<and>
      INT_MAX < tempCount s + int (length (takeWhile c (operators s))))"
proof (induction c s rule: reduceWhile.induct)
  case (1 c s)
  show ?case
  proof (cases "operators s")
    case Nil
    then show ?thesis by (simp add: reduceWhile.simps [of c s])
  next
    case (Cons t ops)
    show ?thesis
    proof (cases "c t")
      case False
      with Cons show ?thesis by (simp add: reduceWhile.simps [of c s])
    next
      case True
      with Cons "1.prems" have "2 \<le> length (operands s)" by simp
      then obtain a2 a1 rest where opnds: "operands s = a2 # a1 # rest"
        by (cases "operands s"; cases "tl (operands s)") auto
      show ?thesis
      proof (cases "tempCount s = INT_MAX")
        case over: True
        with Cons True opnds show ?thesis
          by (simp add: reduceWhile.simps [of c s] processOperator_def)
      next
        case ok: False
        with Cons opnds obtain s1 where s1: "processOperator s = Inr s1"
          by (simp add: processOperator_def Let_def)
        from processOperator_Inr [OF s1] Cons opnds
        have shape: "operators s1 = ops" "length (operands s1) = Suc (length rest)"
          "tempCount s1 = tempCount s + 1"
          by auto
        with "1.prems" Cons True opnds
        have "length (takeWhile c (operators s1)) < length (operands s1)" by simp
        from "1.IH" [OF Cons True s1 this] shape Cons True s1 show ?thesis
          by (auto simp: reduceWhile.simps [of c s])
      qed
    qed
  qed
qed

section \<open>Numbering of the temporaries\<close>

lemma numbered_processOperator:
  "numbered s \<Longrightarrow> processOperator s = Inr s' \<Longrightarrow> numbered s'"
  by (drule processOperator_Inr) (auto simp: numbered_def tempName_def)

lemma numbered_update [simp]:
  "numbered (s\<lparr>operators := x\<rparr>) = numbered s"
  "numbered (s\<lparr>operands := y\<rparr>) = numbered s"
  by (simp_all add: numbered_def)

lemma numbered_reduceWhile:
  "reduceWhile c s = Inr s' \<Longrightarrow> numbered s \<Longrightarrow> numbered s'"
  by (rule reduceWhile_preserves [where P = numbered]) (auto intro: numbered_processOperator)

lemma numbered_processToken:
  "numbered s \<Longrightarrow> processToken t s = Inr s' \<Longrightarrow> numbered s'"
  by (auto simp: processToken_def reduceOperators_def reduceToOpenParen_def
      split: if_splits sum.splits dest: numbered_reduceWhile)

lemma numbered_processTokens:
  "numbered s \<Longrightarrow> processTokens ts s = Inr s' \<Longrightarrow> numbered s'"
  by (induction ts arbitrary: s) (auto split: sum.splits dest: numbered_processToken)

lemma numbered_reduceTokens: "reduceTokens ts = Inr s \<Longrightarrow> numbered s"
proof -
  assume run: "reduceTokens ts = Inr s"
  have init: "numbered initial" by (simp add: numbered_def initial_def)
  from run obtain s1 where s1: "processTokens ts initial = Inr s1"
    and rest: "reduceWhile (\<lambda>topTok. True) s1 = Inr s"
    by (auto simp: reduceTokens_def reduceRemaining_def split: sum.splits)
  from numbered_processTokens [OF init s1] have "numbered s1" .
  with rest show ?thesis by (rule numbered_reduceWhile)
qed

section \<open>The operand stack stays non-empty\<close>

lemma operands_reduceWhile:
  "reduceWhile c s = Inr s' \<Longrightarrow> operands s \<noteq> [] \<Longrightarrow> operands s' \<noteq> []"
  by (rule reduceWhile_preserves [where P = "\<lambda>s. operands s \<noteq> []"])
     (auto dest: processOperator_Inr)

lemma operands_processToken:
  "processToken t s = Inr s' \<Longrightarrow> operands s \<noteq> [] \<or> is_operand t \<Longrightarrow> operands s' \<noteq> []"
  by (auto simp: processToken_def reduceOperators_def reduceToOpenParen_def is_operand_def
      split: if_splits sum.splits dest: operands_reduceWhile)

lemma operands_processTokens:
  "processTokens ts s = Inr s' \<Longrightarrow> operands s \<noteq> [] \<or> (\<exists>t\<in>set ts. is_operand t) \<Longrightarrow>
     operands s' \<noteq> []"
proof (induction ts arbitrary: s)
  case Nil
  then show ?case by simp
next
  case (Cons t ts)
  from Cons.prems(1) obtain s1 where s1: "processToken t s = Inr s1"
    and rest: "processTokens ts s1 = Inr s'"
    by (auto split: sum.splits)
  show ?case
  proof (cases "operands s \<noteq> [] \<or> is_operand t")
    case True
    with s1 have "operands s1 \<noteq> []" by (rule operands_processToken)
    with Cons.IH [OF rest] show ?thesis by simp
  next
    case False
    with Cons.prems(2) have "\<exists>t\<in>set ts. is_operand t" by auto
    with Cons.IH [OF rest] show ?thesis by simp
  qed
qed

lemma operands_reduceTokens:
  "reduceTokens ts = Inr s \<Longrightarrow> \<exists>t\<in>set ts. is_operand t \<Longrightarrow> operands s \<noteq> []"
  by (auto simp: reduceTokens_def reduceRemaining_def split: sum.splits
      dest!: operands_processTokens dest: operands_reduceWhile)

lemma numbers_of_names: "map (nat_of_string \<circ> tl \<circ> tempName) ks = ks"
  by (induction ks) (simp_all add: tempName_def to_string_def nat_of_string_of_nat)


section \<open>Reading a well-formed expression\<close>

lemma pending_split:
  assumes "\<forall>t\<in>set (takeWhile c stk). is_operator t"
  shows "pending stk = length (takeWhile c stk) + pending (dropWhile c stk)"
proof -
  have "pending stk = pending (takeWhile c stk @ dropWhile c stk)" by simp
  also have "\<dots> = length (filter is_operator (takeWhile c stk)) + pending (dropWhile c stk)"
    unfolding pending_def by (simp only: filter_append length_append)
  also from assms have "filter is_operator (takeWhile c stk) = takeWhile c stk"
    by (simp add: filter_id_conv)
  finally show ?thesis .
qed

lemma barrier_dropWhile:
  assumes "\<forall>t\<in>set (takeWhile c stk). is_operator t"
  shows "barrier (dropWhile c stk) = barrier stk"
proof -
  have "barrier stk = dropWhile is_operator (takeWhile c stk @ dropWhile c stk)"
    by (simp add: barrier_def)
  also from assms have "\<dots> = dropWhile is_operator (dropWhile c stk)"
    by (intro dropWhile_append2) simp
  finally show ?thesis by (simp add: barrier_def)
qed

lemma stack_ok_dropWhile: "stack_ok stk \<Longrightarrow> stack_ok (dropWhile c stk)"
  by (auto simp: stack_ok_def list_all_iff dest: set_dropWhileD)

lemma processTokens_append:
  "processTokens (xs @ ys) s =
     (case processTokens xs s of Inl e \<Rightarrow> Inl e | Inr s' \<Rightarrow> processTokens ys s')"
  by (induction xs arbitrary: s) (auto split: sum.splits)

lemma step_operand:
  assumes "is_operand t" "wants_operand s"
  shows "\<exists>s'. processToken t s = Inr s' \<and> has_operand s' \<and>
    operators s' = operators s \<and> instructions s' = instructions s"
  using assms by (auto simp: processToken_def is_operand_def wants_operand_def has_operand_def)

lemma step_open:
  assumes "wants_operand s"
  shows "processToken openParen s = Inr (s\<lparr>operators := openParen # operators s\<rparr>) \<and>
    wants_operand (s\<lparr>operators := openParen # operators s\<rparr>)"
  using assms
  by (simp add: processToken_def openParen_def wants_operand_def stack_ok_def pending_def
      is_operator_def)

lemma step_operator:
  assumes b: "binary_operator b" and s: "has_operand s"
  shows "(\<exists>s'. processToken b s = Inr s' \<and> wants_operand s' \<and>
            barrier (operators s') = barrier (operators s) \<and>
            length (instructions s') + pending (operators s') =
              Suc (length (instructions s) + pending (operators s))) \<or>
         (processToken b s = Inl TempCountOverflow \<and>
            INT_MAX \<le> int (length (instructions s) + pending (operators s)))"
proof -
  let ?c = "\<lambda>topTok. reduceCondition topTok b"
  let ?stk = "operators s"
  let ?k = "length (takeWhile ?c ?stk)"
  from b have b_op: "tok_type b = OPERATOR" "tok_value b \<noteq> ''(''"
    by (auto simp: binary_operator_def)
  have ops: "\<forall>t\<in>set (takeWhile ?c ?stk). is_operator t"
    by (auto dest!: set_takeWhileD simp: reduceCondition_def Let_def is_operator_def)
  note pend = pending_split [OF ops]
  from s pend have "?k < length (operands s)" by (simp add: has_operand_def)
  from reduceWhile_total [OF this] show ?thesis
  proof
    assume "\<exists>s1. reduceWhile ?c s = Inr s1"
    then obtain s1 where s1: "reduceWhile ?c s = Inr s1" ..
    note facts = reduceWhile_Inr [OF s1] reduceWhile_tempCount [OF s1]
    let ?s' = "s1\<lparr>operators := b # operators s1\<rparr>"
    from s1 b_op have run: "processToken b s = Inr ?s'"
      by (simp add: processToken_def reduceOperators_def)
    from s have "stack_ok (dropWhile ?c ?stk)"
      by (simp add: has_operand_def stack_ok_dropWhile)
    with b_op have ok: "stack_ok (operators ?s')"
      using facts by (simp add: stack_ok_def is_operator_def)
    from b_op have pend': "pending (operators ?s') = Suc (pending (dropWhile ?c ?stk))"
      using facts by (simp add: pending_def is_operator_def)
    from s facts pend have opnds: "length (operands ?s') = Suc (pending (dropWhile ?c ?stk))"
      by (simp add: has_operand_def)
    from s facts have count: "tempCount ?s' = 1 + int (length (instructions ?s'))"
      by (simp add: has_operand_def)
    from ok pend' opnds count have "wants_operand ?s'"
      by (simp add: wants_operand_def)
    moreover from b_op facts barrier_dropWhile [OF ops]
    have "barrier (operators ?s') = barrier ?stk"
      by (simp add: barrier_def is_operator_def)
    moreover from facts pend pend'
    have "length (instructions ?s') + pending (operators ?s') =
        Suc (length (instructions s) + pending ?stk)"
      by simp
    ultimately show ?thesis using run by blast
  next
    assume over: "reduceWhile ?c s = Inl TempCountOverflow \<and> INT_MAX < tempCount s + int ?k"
    with b_op have "processToken b s = Inl TempCountOverflow"
      by (simp add: processToken_def reduceOperators_def)
    moreover from over s pend have "INT_MAX \<le> int (length (instructions s) + pending ?stk)"
      by (simp add: has_operand_def)
    ultimately show ?thesis by blast
  qed
qed

lemma step_close:
  assumes s: "has_operand s" and bar: "barrier (operators s) = openParen # S"
  shows "(\<exists>s'. processToken closeParen s = Inr s' \<and> has_operand s' \<and> operators s' = S \<and>
            length (instructions s') + pending S =
              length (instructions s) + pending (operators s)) \<or>
         (processToken closeParen s = Inl TempCountOverflow \<and>
            INT_MAX \<le> int (length (instructions s) + pending (operators s)))"
proof -
  let ?c = "\<lambda>topTok. tok_value topTok \<noteq> ''(''"
  let ?stk = "operators s"
  let ?k = "length (takeWhile ?c ?stk)"
  from s have "stack_ok ?stk" by (simp add: has_operand_def)
  then have same: "\<forall>t\<in>set ?stk. ?c t = is_operator t"
    by (auto simp: stack_ok_def list_all_iff openParen_def is_operator_def)
  then have tw: "takeWhile ?c ?stk = takeWhile is_operator ?stk"
    by (intro takeWhile_cong) auto
  from same have "dropWhile ?c ?stk = dropWhile is_operator ?stk"
    by (intro dropWhile_cong) auto
  with bar have dw: "dropWhile ?c ?stk = openParen # S" by (simp add: barrier_def)
  have ops: "\<forall>t\<in>set (takeWhile ?c ?stk). is_operator t"
    unfolding tw by (auto dest: set_takeWhileD)
  from pending_split [OF ops] dw have pend: "pending ?stk = ?k + pending S"
    by (simp add: pending_def openParen_def is_operator_def)
  from s pend have "?k < length (operands s)" by (simp add: has_operand_def)
  from reduceWhile_total [OF this] show ?thesis
  proof
    assume "\<exists>s1. reduceWhile ?c s = Inr s1"
    then obtain s1 where s1: "reduceWhile ?c s = Inr s1" ..
    note facts = reduceWhile_Inr [OF s1] reduceWhile_tempCount [OF s1]
    let ?s' = "s1\<lparr>operators := tl (operators s1)\<rparr>"
    from facts dw have stk1: "operators s1 = openParen # S" by simp
    with s1 have run: "processToken closeParen s = Inr ?s'"
      by (simp add: processToken_def reduceToOpenParen_def closeParen_def)
    from \<open>stack_ok ?stk\<close> have "stack_ok (dropWhile ?c ?stk)" by (rule stack_ok_dropWhile)
    with dw have "stack_ok S" by (simp add: stack_ok_def)
    from stk1 have stk': "operators ?s' = S" by simp
    from s facts pend have opnds: "length (operands ?s') = Suc (pending S)"
      by (simp add: has_operand_def)
    from s facts have count: "tempCount ?s' = 1 + int (length (instructions ?s'))"
      by (simp add: has_operand_def)
    from \<open>stack_ok S\<close> opnds count have "has_operand ?s'"
      unfolding has_operand_def stk' by simp
    moreover note stk'
    moreover from facts pend
    have "length (instructions ?s') + pending S = length (instructions s) + pending ?stk"
      by simp
    ultimately show ?thesis using run by blast
  next
    assume over: "reduceWhile ?c s = Inl TempCountOverflow \<and> INT_MAX < tempCount s + int ?k"
    then have "processToken closeParen s = Inl TempCountOverflow"
      by (simp add: processToken_def reduceToOpenParen_def closeParen_def)
    moreover from over s pend have "INT_MAX \<le> int (length (instructions s) + pending ?stk)"
      by (simp add: has_operand_def)
    ultimately show ?thesis by blast
  qed
qed


lemma count_operators_simps:
  "is_operand t \<Longrightarrow> count_operators [t] = 0"
  "binary_operator b \<Longrightarrow> count_operators (l @ b # r) = Suc (count_operators l + count_operators r)"
  "count_operators (openParen # e @ [closeParen]) = count_operators e"
  by (auto simp: count_operators_def is_operand_def binary_operator_def openParen_def
      closeParen_def)

lemma read_expression:
  "infix_expr tokens \<Longrightarrow> wants_operand s \<Longrightarrow>
     (\<exists>s'. processTokens tokens s = Inr s' \<and> has_operand s' \<and>
        barrier (operators s') = barrier (operators s) \<and>
        length (instructions s') + pending (operators s') = budget s tokens) \<or>
     (processTokens tokens s = Inl TempCountOverflow \<and> INT_MAX \<le> int (budget s tokens))"
proof (induction arbitrary: s rule: infix_expr.induct)
  case (operand t)
  from step_operand [OF operand.hyps operand.prems] obtain s'
    where "processToken t s = Inr s'" "has_operand s'" "operators s' = operators s"
      "instructions s' = instructions s"
    by blast
  with operand.hyps show ?case
    by (auto simp: budget_def count_operators_simps)
next
  case (binary l b r)
  note count = count_operators_simps(2) [OF binary.hyps(2), of l r]
  from binary.IH(1) [OF binary.prems] show ?case
  proof (elim disjE exE conjE)
    assume "processTokens l s = Inl TempCountOverflow" "INT_MAX \<le> int (budget s l)"
    then show ?thesis
      by (auto simp: processTokens_append budget_def count)
  next
    fix s1
    assume s1: "processTokens l s = Inr s1" "has_operand s1"
      "barrier (operators s1) = barrier (operators s)"
      "length (instructions s1) + pending (operators s1) = budget s l"
    from step_operator [OF binary.hyps(2) s1(2)] show ?thesis
    proof (elim disjE exE conjE)
      assume "processToken b s1 = Inl TempCountOverflow"
        "INT_MAX \<le> int (length (instructions s1) + pending (operators s1))"
      with s1 show ?thesis
        by (auto simp: processTokens_append budget_def count)
    next
      fix s2
      assume s2: "processToken b s1 = Inr s2" "wants_operand s2"
        "barrier (operators s2) = barrier (operators s1)"
        "length (instructions s2) + pending (operators s2) =
           Suc (length (instructions s1) + pending (operators s1))"
      from s1(4) s2(4) have total: "budget s2 r = budget s (l @ b # r)"
        by (simp add: budget_def count)
      from s1(1) s2(1) have run: "processTokens (l @ b # r) s = processTokens r s2"
        by (simp add: processTokens_append)
      from binary.IH(2) [OF s2(2)] s1(3) s2(3) show ?thesis
        unfolding run total by auto
    qed
  qed
next
  case (parens e)
  let ?s1 = "s\<lparr>operators := openParen # operators s\<rparr>"
  note count = count_operators_simps(3) [of e]
  from step_open [OF parens.prems]
  have s1: "processToken openParen s = Inr ?s1" "wants_operand ?s1"
    by simp_all
  have bar1: "barrier (operators ?s1) = openParen # operators s"
    by (simp add: barrier_def openParen_def is_operator_def)
  have total: "budget ?s1 e = budget s (openParen # e @ [closeParen])"
    unfolding budget_def count by (simp add: pending_def openParen_def is_operator_def)
  have run: "processTokens (openParen # e @ [closeParen]) s =
      (case processTokens e ?s1 of Inl x \<Rightarrow> Inl x
       | Inr s2 \<Rightarrow> processTokens [closeParen] s2)"
    using s1(1) by (simp add: processTokens_append)
  from parens.IH [OF s1(2)] show ?case
  proof (elim disjE exE conjE)
    assume "processTokens e ?s1 = Inl TempCountOverflow" "INT_MAX \<le> int (budget ?s1 e)"
    then show ?thesis unfolding run total by simp
  next
    fix s2
    assume s2: "processTokens e ?s1 = Inr s2" "has_operand s2"
      "barrier (operators s2) = barrier (operators ?s1)"
      "length (instructions s2) + pending (operators s2) = budget ?s1 e"
    from s2(3) bar1 have "barrier (operators s2) = openParen # operators s" by simp
    from step_close [OF s2(2) this] show ?thesis
    proof (elim disjE exE conjE)
      assume "processToken closeParen s2 = Inl TempCountOverflow"
        "INT_MAX \<le> int (length (instructions s2) + pending (operators s2))"
      with s2(1,4) show ?thesis unfolding run total [symmetric] by simp
    next
      fix s3
      assume s3: "processToken closeParen s2 = Inr s3" "has_operand s3"
        "operators s3 = operators s"
        "length (instructions s3) + pending (operators s) =
           length (instructions s2) + pending (operators s2)"
      with s2(1,4) show ?thesis unfolding run total [symmetric] by simp
    qed
  qed
qed

text \<open>
  The whole reduction of a well-formed expression: one instruction per binary operator,
  one operand left, nothing on the operator stack; the only way to fail is to run out of
  temporaries.
\<close>

lemma reduce_expression:
  assumes "infix_expr tokens"
  shows "(\<exists>s. reduceTokens tokens = Inr s \<and> operators s = [] \<and> length (operands s) = 1 \<and>
            length (instructions s) = count_operators tokens) \<or>
         (reduceTokens tokens = Inl TempCountOverflow \<and> INT_MAX \<le> int (count_operators tokens))"
proof -
  have init: "wants_operand initial"
    by (simp add: wants_operand_def initial_def stack_ok_def pending_def)
  have total: "budget initial tokens = count_operators tokens"
    by (simp add: budget_def initial_def pending_def)
  from read_expression [OF assms init] show ?thesis
  proof (elim disjE exE conjE)
    assume "processTokens tokens initial = Inl TempCountOverflow"
      "INT_MAX \<le> int (budget initial tokens)"
    then show ?thesis by (simp add: reduceTokens_def total)
  next
    fix s1
    assume s1: "processTokens tokens initial = Inr s1" "has_operand s1"
      "barrier (operators s1) = barrier (operators initial)"
      "length (instructions s1) + pending (operators s1) = budget initial tokens"
    let ?c = "\<lambda>topTok::Token. True"
    from s1(3) have "\<forall>t\<in>set (operators s1). is_operator t"
      by (simp add: barrier_def initial_def dropWhile_eq_Nil_conv)
    then have all: "pending (operators s1) = length (operators s1)"
      by (simp add: pending_def filter_id_conv)
    from s1(1) have run: "reduceTokens tokens = reduceWhile ?c s1"
      by (simp add: reduceTokens_def reduceRemaining_def)
    have tw: "takeWhile ?c (operators s1) = operators s1"
      and dw: "dropWhile ?c (operators s1) = []"
      by (simp_all add: takeWhile_eq_all_conv dropWhile_eq_Nil_conv)
    from s1(2) all have "length (takeWhile ?c (operators s1)) < length (operands s1)"
      unfolding tw by (simp add: has_operand_def)
    from reduceWhile_total [OF this] show ?thesis
    proof (elim disjE exE conjE)
      fix s2
      assume s2: "reduceWhile ?c s1 = Inr s2"
      from reduceWhile_Inr [OF s2, unfolded tw dw] s1(2,4) all total
      have "operators s2 = [] \<and> length (operands s2) = 1 \<and>
          length (instructions s2) = count_operators tokens"
        by (simp add: has_operand_def)
      with s2 show ?thesis unfolding run by blast
    next
      assume "reduceWhile ?c s1 = Inl TempCountOverflow"
        "INT_MAX < tempCount s1 + int (length (takeWhile ?c (operators s1)))"
      with s1(2,4) all total show ?thesis unfolding run tw
        by (simp add: has_operand_def)
    qed
  qed
qed

lemma infix_expr_first:
  "infix_expr tokens \<Longrightarrow> tokens \<noteq> [] \<and> (is_operand (hd tokens) \<or> hd tokens = openParen)"
  by (induction rule: infix_expr.induct) auto

lemma fully_parenthesized_infix: "fully_parenthesized tokens \<Longrightarrow> infix_expr tokens"
proof (induction rule: fully_parenthesized.induct)
  case (operand t)
  then show ?case by (rule infix_expr.operand)
next
  case (binary l b r)
  from binary.IH(1) binary.hyps(2) binary.IH(2) have "infix_expr (l @ b # r)"
    by (rule infix_expr.binary)
  then have "infix_expr (openParen # (l @ b # r) @ [closeParen])"
    by (rule infix_expr.parens)
  then show ?case by simp
qed

section \<open>The final assignment\<close>

text \<open>
  C3, amended. Whenever the reduction completes on an expression with at least one
  operand token (a number or a variable), the operand stack is not empty at the end, and
  the last instruction returned is the assignment: operator \<open>=\<close>, first argument the top
  of the operand stack, second argument empty, result the caller's result variable.
\<close>

theorem final_assignment:
  assumes run: "reduceTokens (tokenize expression) = Inr s"
    and operand: "\<exists>t\<in>set (tokenize expression). is_operand t"
  shows "operands s \<noteq> [] \<and>
    processExpression expression resultVar =
      Inr (instructions s @ [Instruction ''='' (hd (operands s)) '''' resultVar]) \<and>
    (\<exists>ins. processExpression expression resultVar = Inr ins \<and> ins \<noteq> [] \<and>
       op (last ins) = ''='' \<and> arg1 (last ins) = hd (operands s) \<and>
       arg2 (last ins) = '''' \<and> result (last ins) = resultVar)"
proof -
  from operands_reduceTokens [OF run operand] have "operands s \<noteq> []" .
  with run show ?thesis by (simp add: processExpression_def finish_def)
qed

theorem final_assignment_witness:
  "(\<exists>t\<in>set (tokenize ''a + b * c''). is_operand t) \<and>
   processExpression ''a + b * c'' ''x'' =
     Inr ([Instruction ''*'' ''b'' ''c'' ''t1'', Instruction ''+'' ''a'' ''t1'' ''t2''] @
          [Instruction ''='' ''t2'' '''' ''x''])"
proof -
  have run: "reduceTokens (tokenize ''a + b * c'') =
      Inr \<lparr>instructions = [Instruction ''*'' ''b'' ''c'' ''t1'', Instruction ''+'' ''a'' ''t1'' ''t2''],
           operators = [], operands = [''t2''], tempCount = 3\<rparr>"
    by code_simp
  have operand: "\<exists>t\<in>set (tokenize ''a + b * c''). is_operand t"
    by code_simp
  from final_assignment [OF run operand, of "''x''"] operand show ?thesis by simp
qed

section \<open>Names of the temporaries\<close>

text \<open>
  C7. In one call the instructions emitted by the reduction step carry the results
  \<open>t1\<close>, \<open>t2\<close>, ... in the order of emission: the numbers read back from the names are
  1, 2, ..., n, hence strictly increasing, and no name occurs twice. The counter starts
  at 1 in the initial state of every call; the state is local to the call.
\<close>

theorem temporaries_numbered_from_one:
  assumes run: "reduceTokens (tokenize expression) = Inr s"
  shows "processExpression expression resultVar = Inr (finish resultVar s) \<and>
    map result (instructions s) = map tempName [1..<Suc (length (instructions s))] \<and>
    map (nat_of_string \<circ> tl \<circ> result) (instructions s) = [1..<Suc (length (instructions s))] \<and>
    sorted_wrt (<) (map (nat_of_string \<circ> tl \<circ> result) (instructions s)) \<and>
    distinct (map result (instructions s)) \<and>
    tempCount initial = 1"
proof -
  let ?n = "length (instructions s)"
  from numbered_reduceTokens [OF run]
  have names: "map result (instructions s) = map tempName [1..<Suc ?n]"
    by (simp add: numbered_def)
  have "map (nat_of_string \<circ> tl \<circ> result) (instructions s) =
      map (nat_of_string \<circ> tl) (map result (instructions s))"
    by simp
  also have "\<dots> = map (nat_of_string \<circ> tl \<circ> tempName) [1..<Suc ?n]"
    by (simp only: names map_map comp_assoc)
  also have "\<dots> = [1..<Suc ?n]" by (rule numbers_of_names)
  finally have numbers:
    "map (nat_of_string \<circ> tl \<circ> result) (instructions s) = [1..<Suc ?n]" .
  have "inj_on tempName (set [1..<Suc ?n])"
    by (rule inj_onI) (rule tempName_inj)
  then have "distinct (map tempName [1..<Suc ?n])"
    by (simp add: distinct_map)
  with names have dist: "distinct (map result (instructions s))" by simp
  have sorted: "sorted_wrt (<) (map (nat_of_string \<circ> tl \<circ> result) (instructions s))"
    by (simp only: numbers sorted_wrt_upt)
  from run have "processExpression expression resultVar = Inr (finish resultVar s)"
    by (simp add: processExpression_def)
  with names numbers sorted dist show ?thesis by (simp add: initial_def)
qed

theorem temporaries_numbered_from_one_witness:
  "processExpression ''a + b * c'' ''x'' =
     Inr [Instruction ''*'' ''b'' ''c'' ''t1'', Instruction ''+'' ''a'' ''t1'' ''t2'',
          Instruction ''='' ''t2'' '''' ''x''] \<and>
   map result [Instruction ''*'' ''b'' ''c'' ''t1'', Instruction ''+'' ''a'' ''t1'' ''t2''] =
     [tempName 1, tempName 2]"
proof -
  let ?s = "\<lparr>instructions =
        [Instruction ''*'' ''b'' ''c'' ''t1'', Instruction ''+'' ''a'' ''t1'' ''t2''],
      operators = [], operands = [''t2''], tempCount = 3\<rparr>"
  have run: "reduceTokens (tokenize ''a + b * c'') = Inr ?s"
    by code_simp
  note numbering = temporaries_numbered_from_one [OF run, of "''x''"]
  from numbering have "processExpression ''a + b * c'' ''x'' = Inr (finish ''x'' ?s)"
    by (rule conjunct1)
  then have instrs: "processExpression ''a + b * c'' ''x'' =
     Inr [Instruction ''*'' ''b'' ''c'' ''t1'', Instruction ''+'' ''a'' ''t1'' ''t2'',
          Instruction ''='' ''t2'' '''' ''x'']"
    by (simp add: finish_def)
  from numbering
  have "map result (instructions ?s) = map tempName [1..<Suc (length (instructions ?s))]"
    by blast
  then have names:
    "map result [Instruction ''*'' ''b'' ''c'' ''t1'', Instruction ''+'' ''a'' ''t1'' ''t2''] =
       [tempName 1, tempName 2]"
    by (simp add: numeral_2_eq_2)
  from instrs names show ?thesis by (rule conjI)
qed

text \<open>
  C10. When the call returns, the \<open>k\<close>-th instruction emitted by the reduction step
  (counting from 1) has the result \<open>t\<close> followed by the decimal numeral of \<open>k\<close>; in the
  returned sequence every instruction before the last one, at position \<open>i\<close> counted
  from 0, has the result \<open>t<i+1>\<close>.
\<close>

theorem position_determines_result:
  assumes run: "processExpression expression resultVar = Inr ins"
  shows "\<exists>s. reduceTokens (tokenize expression) = Inr s \<and> ins = finish resultVar s \<and>
    (\<forall>k. 1 \<le> k \<and> k \<le> length (instructions s) \<longrightarrow>
       ins ! (k - 1) = instructions s ! (k - 1) \<and>
       result (instructions s ! (k - 1)) = ''t'' @ to_string (int k)) \<and>
    (\<forall>i. Suc i < length ins \<longrightarrow> result (ins ! i) = ''t'' @ to_string (int (i + 1)))"
proof -
  from run obtain s where s: "reduceTokens (tokenize expression) = Inr s"
    and ins: "ins = finish resultVar s"
    by (auto simp: processExpression_def split: sum.splits)
  let ?n = "length (instructions s)"
  from numbered_reduceTokens [OF s]
  have names: "map result (instructions s) = map tempName [1..<Suc ?n]"
    by (simp add: numbered_def)
  have nth: "result (instructions s ! i) = ''t'' @ to_string (int (i + 1))" if "i < ?n" for i
  proof -
    from that have "result (instructions s ! i) = map result (instructions s) ! i" by simp
    also from that have "\<dots> = tempName (1 + i)"
      by (simp only: names) (simp del: upt_Suc)
    finally show ?thesis by (simp add: tempName_def)
  qed
  have same: "ins ! i = instructions s ! i" if "i < ?n" for i
    using that by (simp add: ins finish_def nth_append)
  have len: "length ins \<le> Suc ?n" by (simp add: ins finish_def)
  have first: "ins ! (k - 1) = instructions s ! (k - 1) \<and>
      result (instructions s ! (k - 1)) = ''t'' @ to_string (int k)"
    if "1 \<le> k \<and> k \<le> ?n" for k
  proof -
    from that have "k - 1 < ?n" and "k - 1 + 1 = k" by arith+
    with nth [of "k - 1"] same [of "k - 1"] show ?thesis by simp
  qed
  have second: "result (ins ! i) = ''t'' @ to_string (int (i + 1))" if "Suc i < length ins" for i
  proof -
    from that len have "i < ?n" by simp
    with nth [of i] same [of i] show ?thesis by simp
  qed
  from s ins first second show ?thesis by blast
qed

theorem position_determines_result_witness:
  "result ([Instruction ''*'' ''b'' ''c'' ''t1'', Instruction ''+'' ''a'' ''t1'' ''t2'',
            Instruction ''='' ''t2'' '''' ''x''] ! 1) = ''t'' @ to_string (int (1 + 1))"
proof -
  have run: "processExpression ''a + b * c'' ''x'' =
      Inr [Instruction ''*'' ''b'' ''c'' ''t1'', Instruction ''+'' ''a'' ''t1'' ''t2'',
           Instruction ''='' ''t2'' '''' ''x'']"
    by code_simp
  from position_determines_result [OF run] have
    "\<forall>i. Suc i < length [Instruction ''*'' ''b'' ''c'' ''t1'', Instruction ''+'' ''a'' ''t1'' ''t2'',
           Instruction ''='' ''t2'' '''' ''x''] \<longrightarrow>
       result ([Instruction ''*'' ''b'' ''c'' ''t1'', Instruction ''+'' ''a'' ''t1'' ''t2'',
           Instruction ''='' ''t2'' '''' ''x''] ! i) = ''t'' @ to_string (int (i + 1))"
    by blast
  from this [rule_format, of 1] show ?thesis by simp
qed


section \<open>Operand underflow\<close>

text \<open>
  C2. The reduction step pops two operands without a test: it fails with an operand
  underflow exactly when it is invoked with fewer than two operands, and every loop
  hands that failure on. On a token sequence that is a well-formed infix expression
  this never happens: the reduction returns, or it runs out of temporaries. On the
  malformed, non-empty sequence of \<open>+ a\<close> (one operator, then one operand) the
  reduction step is invoked with a single operand.
\<close>

theorem operand_underflow_only_when_malformed:
  "(processOperator s = Inl OperandUnderflow \<longleftrightarrow>
      operators s \<noteq> [] \<and> length (operands s) < 2) \<and>
   (infix_expr tokens \<longrightarrow>
      (\<exists>s'. reduceTokens tokens = Inr s') \<or> reduceTokens tokens = Inl TempCountOverflow) \<and>
   (infix_expr (tokenize expression) \<longrightarrow>
      processExpression expression resultVar \<noteq> Inl OperandUnderflow) \<and>
   tokenize ''+ a'' = [Token OPERATOR ''+'', Token VARIABLE ''a''] \<and>
   \<not> infix_expr (tokenize ''+ a'') \<and>
   processExpression ''+ a'' resultVar = Inl OperandUnderflow"
proof -
  have no_check: "processOperator s = Inl OperandUnderflow \<longleftrightarrow>
      operators s \<noteq> [] \<and> length (operands s) < 2"
  proof (cases "operators s")
    case Nil
    then show ?thesis by (simp add: processOperator_def)
  next
    case (Cons t ops)
    then show ?thesis
      by (cases "operands s"; cases "tl (operands s)")
        (auto simp: processOperator_def Let_def)
  qed
  have wf: "(\<exists>s'. reduceTokens ts = Inr s') \<or> reduceTokens ts = Inl TempCountOverflow"
    if "infix_expr ts" for ts
    using reduce_expression [OF that] by blast
  have wf_string: "processExpression expression resultVar \<noteq> Inl OperandUnderflow"
    if "infix_expr (tokenize expression)"
    using wf [OF that] by (auto simp: processExpression_def)
  have toks: "tokenize ''+ a'' = [Token OPERATOR ''+'', Token VARIABLE ''a'']"
    by code_simp
  have malformed: "\<not> infix_expr (tokenize ''+ a'')"
  proof
    assume "infix_expr (tokenize ''+ a'')"
    from infix_expr_first [OF this] show False
      by (simp add: toks is_operand_def openParen_def)
  qed
  have "reduceTokens [Token OPERATOR ''+'', Token VARIABLE ''a''] = Inl OperandUnderflow"
    by code_simp
  then have underflow: "processExpression ''+ a'' resultVar = Inl OperandUnderflow"
    by (simp add: processExpression_def toks)
  from no_check wf wf_string toks malformed underflow show ?thesis by blast
qed

theorem operand_underflow_only_when_malformed_witness:
  "infix_expr (tokenize ''a + b * c'') \<and>
   ((\<exists>s'. reduceTokens (tokenize ''a + b * c'') = Inr s') \<or>
    reduceTokens (tokenize ''a + b * c'') = Inl TempCountOverflow) \<and>
   processExpression ''a + b * c'' ''x'' \<noteq> Inl OperandUnderflow"
proof -
  have toks: "tokenize ''a + b * c'' =
      [Token VARIABLE ''a''] @ Token OPERATOR ''+'' #
        ([Token VARIABLE ''b''] @ Token OPERATOR ''*'' # [Token VARIABLE ''c''])"
    by code_simp
  have "infix_expr ([Token VARIABLE ''a''] @ Token OPERATOR ''+'' #
        ([Token VARIABLE ''b''] @ Token OPERATOR ''*'' # [Token VARIABLE ''c'']))"
    by (intro infix_expr.intros) (simp_all add: is_operand_def binary_operator_def)
  then have wf: "infix_expr (tokenize ''a + b * c'')"
    by (simp only: toks)
  from operand_underflow_only_when_malformed
    [of _ "tokenize ''a + b * c''" "''a + b * c''" "''x''"] wf
  show ?thesis by blast
qed

section \<open>One instruction per operator\<close>

text \<open>
  C6. For a fully parenthesized expression the instructions before the final assignment
  are as many as the binary operators of the expression. The one exception is an
  expression with at least \<open>INT_MAX\<close> operators, on which the counter of temporaries
  overflows before the call can return.
\<close>

theorem fully_parenthesized_instruction_count:
  assumes "fully_parenthesized (tokenize expression)"
  shows "(\<exists>s. reduceTokens (tokenize expression) = Inr s \<and>
            processExpression expression resultVar =
              Inr (instructions s @ [Instruction ''='' (hd (operands s)) '''' resultVar]) \<and>
            length (instructions s) = count_operators (tokenize expression)) \<or>
         (processExpression expression resultVar = Inl TempCountOverflow \<and>
            INT_MAX \<le> int (count_operators (tokenize expression)))"
proof -
  from assms have "infix_expr (tokenize expression)"
    by (rule fully_parenthesized_infix)
  from reduce_expression [OF this] show ?thesis
  proof (elim disjE exE conjE)
    fix s
    assume s: "reduceTokens (tokenize expression) = Inr s" "length (operands s) = 1"
      "length (instructions s) = count_operators (tokenize expression)"
    from s(2) have "operands s \<noteq> []" by auto
    with s(1) have "processExpression expression resultVar =
        Inr (instructions s @ [Instruction ''='' (hd (operands s)) '''' resultVar])"
      by (simp add: processExpression_def finish_def)
    with s show ?thesis by blast
  next
    assume "reduceTokens (tokenize expression) = Inl TempCountOverflow"
      "INT_MAX \<le> int (count_operators (tokenize expression))"
    then show ?thesis by (simp add: processExpression_def)
  qed
qed

theorem fully_parenthesized_instruction_count_witness:
  "fully_parenthesized (tokenize ''((a + b) * c)'') \<and>
   count_operators (tokenize ''((a + b) * c)'') = 2 \<and>
   processExpression ''((a + b) * c)'' ''x'' =
     Inr ([Instruction ''+'' ''a'' ''b'' ''t1'', Instruction ''*'' ''t1'' ''c'' ''t2''] @
          [Instruction ''='' ''t2'' '''' ''x''])"
proof -
  let ?a = "Token VARIABLE ''a''" and ?b = "Token VARIABLE ''b''" and ?c = "Token VARIABLE ''c''"
  let ?plus = "Token OPERATOR ''+''" and ?times = "Token OPERATOR ''*''"
  have toks: "tokenize ''((a + b) * c)'' =
      openParen # (openParen # [?a] @ ?plus # [?b] @ [closeParen]) @ ?times # [?c] @ [closeParen]"
    unfolding openParen_def closeParen_def by code_simp
  have "fully_parenthesized
      (openParen # (openParen # [?a] @ ?plus # [?b] @ [closeParen]) @ ?times # [?c] @ [closeParen])"
    by (intro fully_parenthesized.intros) (simp_all add: is_operand_def binary_operator_def)
  then have fp: "fully_parenthesized (tokenize ''((a + b) * c)'')"
    by (simp only: toks)
  have count: "count_operators (tokenize ''((a + b) * c)'') = 2"
    by code_simp
  have run: "processExpression ''((a + b) * c)'' ''x'' =
     Inr ([Instruction ''+'' ''a'' ''b'' ''t1'', Instruction ''*'' ''t1'' ''c'' ''t2''] @
          [Instruction ''='' ''t2'' '''' ''x''])"
    by code_simp
  from fully_parenthesized_instruction_count [OF fp, of "''x''"] run
  have "\<exists>s. reduceTokens (tokenize ''((a + b) * c)'') = Inr s \<and>
      length (instructions s) = count_operators (tokenize ''((a + b) * c)'')"
    by auto
  with fp count run show ?thesis by blast
qed


section \<open>Concrete runs\<close>

text \<open>
  C8. For the empty expression and any result variable the pipeline returns the empty
  instruction sequence: no reduction instruction and no final assignment.
\<close>

theorem empty_expression_no_instructions:
  "processExpression '''' resultVar = Inr []"
  by (simp add: processExpression_def reduceTokens_def reduceRemaining_def initial_def
      reduceWhile.simps finish_def tokenize.simps)

text \<open>
  C4. The expression \<open>a + b * c\<close> with result variable \<open>x\<close> gives the three instructions
  \<open>t1 = b * c\<close>, \<open>t2 = a + t1\<close>, \<open>x = t2\<close>, rendered as the quadruples
  \<open>(*, b, c, t1)\<close>, \<open>(+, a, t1, t2)\<close>, \<open>(=, t2,  , x)\<close>; the assignment's second
  argument is printed as one blank.
\<close>

theorem a_plus_b_times_c:
  "processExpression ''a + b * c'' ''x'' =
     Inr [Instruction ''*'' ''b'' ''c'' ''t1'',
          Instruction ''+'' ''a'' ''t1'' ''t2'',
          Instruction ''='' ''t2'' '''' ''x''] \<and>
   map toString (projr (processExpression ''a + b * c'' ''x'')) =
     [''t1 = b * c'', ''t2 = a + t1'', ''x = t2''] \<and>
   map toQuadruple (projr (processExpression ''a + b * c'' ''x'')) =
     [''(*, b, c, t1)'', ''(+, a, t1, t2)'', ''(=, t2,  , x)'']"
  by code_simp

text \<open>
  C5. \<open>^\<close> is reduced from the right: \<open>a ^ b ^ c\<close> gives \<open>t1 = b ^ c\<close> and then
  \<open>t2 = a ^ t1\<close>, whereas \<open>a - b - c\<close> gives \<open>t1 = a - b\<close> first. The loop condition
  compares the precedence of the top of the stack with that of the incoming operator
  strictly (\<open>>\<close>) when the incoming operator is \<open>^\<close> and with \<open>\<ge>\<close> for every other one,
  so a \<open>^\<close> on top of the stack is not reduced when another \<open>^\<close> arrives.
\<close>

theorem power_right_associative:
  "processExpression ''a ^ b ^ c'' ''x'' =
     Inr [Instruction ''^'' ''b'' ''c'' ''t1'',
          Instruction ''^'' ''a'' ''t1'' ''t2'',
          Instruction ''='' ''t2'' '''' ''x''] \<and>
   processExpression ''a - b - c'' ''x'' =
     Inr [Instruction ''-'' ''a'' ''b'' ''t1'',
          Instruction ''-'' ''t1'' ''c'' ''t2'',
          Instruction ''='' ''t2'' '''' ''x''] \<and>
   reduceCondition topTok token =
     (tok_type topTok = OPERATOR \<and>
      (if tok_value token = ''^''
       then getPrecedence (tok_value topTok) > getPrecedence (tok_value token)
       else getPrecedence (tok_value topTok) \<ge> getPrecedence (tok_value token))) \<and>
   reduceCondition (Token OPERATOR ''^'') (Token OPERATOR ''^'') = False \<and>
   reduceCondition (Token OPERATOR ''-'') (Token OPERATOR ''-'') = True"
proof -
  have runs:
    "processExpression ''a ^ b ^ c'' ''x'' =
       Inr [Instruction ''^'' ''b'' ''c'' ''t1'',
            Instruction ''^'' ''a'' ''t1'' ''t2'',
            Instruction ''='' ''t2'' '''' ''x'']"
    "processExpression ''a - b - c'' ''x'' =
       Inr [Instruction ''-'' ''a'' ''b'' ''t1'',
            Instruction ''-'' ''t1'' ''c'' ''t2'',
            Instruction ''='' ''t2'' '''' ''x'']"
    by code_simp+
  have cond:
    "reduceCondition topTok token =
       (tok_type topTok = OPERATOR \<and>
        (if tok_value token = ''^''
         then getPrecedence (tok_value topTok) > getPrecedence (tok_value token)
         else getPrecedence (tok_value topTok) \<ge> getPrecedence (tok_value token)))"
    by (simp add: reduceCondition_def Let_def)
  have tops:
    "reduceCondition (Token OPERATOR ''^'') (Token OPERATOR ''^'') = False"
    "reduceCondition (Token OPERATOR ''-'') (Token OPERATOR ''-'') = True"
    by (simp_all add: reduceCondition_def getPrecedence_def)
  from runs cond tops show ?thesis by blast
qed

text \<open>
  C1 states that an open parenthesis left on the operator stack at the end of the input is
  never reduced. The loop of lines 119 and 120 reduces whatever is on the stack: on
  \<open>a(b\<close> it pops the parenthesis as if it were an operator and emits an instruction whose
  operator is \<open>(\<close>; on \<open>(a + b\<close> it reduces \<open>+\<close>, then pops the parenthesis and
  finds a single operand.
\<close>

theorem unmatched_open_paren_is_reduced:
  "processExpression ''a(b'' ''x'' =
     Inr [Instruction ''('' ''a'' ''b'' ''t1'', Instruction ''='' ''t1'' '''' ''x''] \<and>
   processExpression ''(a + b'' ''x'' = Inl OperandUnderflow"
  by code_simp

text \<open>
  C3 as stated fails: the expression that consists of one blank is not empty, has no
  token, and yields no instruction at all, hence no final assignment.
\<close>

theorem blank_expression_no_assignment:
  "'' '' \<noteq> '''' \<and> processExpression '' '' ''x'' = Inr []"
  by code_simp


end
